theory Spec2Isabelle
  imports Complex_Main "HOL-Library.AList" "HOL-Library.Multiset"
begin

section \<open>Go values used by the generator\<close>

text \<open>
  A Go \<open>map[K]V\<close> is represented by an association list read through \<open>map_of\<close>:
  the first pair for a key is the binding, later pairs for the same key are junk.
  \<open>m[k] = v\<close> is \<open>AList.update k v m\<close>, \<open>delete(m, k)\<close> is \<open>AList.delete k m\<close>,
  and a missing key reads as the zero value of the element type.
  Strings are byte lists; \<open>float64\<close> values are read as real numbers (no rounding).
\<close>

type_synonym ('k, 'v) gomap = "('k \<times> 'v) list"

definition map_entries :: "('k, 'v) gomap \<Rightarrow> ('k \<times> 'v) list" where
  "map_entries m = AList.clearjunk m"

definition map_keys :: "('k, 'v) gomap \<Rightarrow> 'k list" where
  "map_keys m = map fst (map_entries m)"

definition map_len :: "('k, 'v) gomap \<Rightarrow> nat" where
  "map_len m = length (map_entries m)"

definition get_string :: "(string, string) gomap \<Rightarrow> string \<Rightarrow> string" where
  "get_string m k = (case map_of m k of Some v \<Rightarrow> v | None \<Rightarrow> '''')"

definition get_slice :: "(string, 'a list) gomap \<Rightarrow> string \<Rightarrow> 'a list" where
  "get_slice m k = (case map_of m k of Some v \<Rightarrow> v | None \<Rightarrow> [])"

definition get_float :: "(string, real) gomap \<Rightarrow> string \<Rightarrow> real" where
  "get_float m k = (case map_of m k of Some v \<Rightarrow> v | None \<Rightarrow> 0)"

text \<open>
  Go visits the keys of a map in an unspecified order that may differ from one \<open>range\<close>
  loop to the next, and \<open>rand.Shuffle\<close> permutes a slice at random. Both are modelled by
  \<open>permute\<close>: the number \<open>s\<close> selects one arrangement of the list (each element is put
  back at a position read off \<open>s\<close>), and every arrangement is selected by some \<open>s\<close>.
\<close>

definition insert_at :: "nat \<Rightarrow> 'a \<Rightarrow> 'a list \<Rightarrow> 'a list" where
  "insert_at i x ys = take i ys @ x # drop i ys"

primrec permute :: "nat \<Rightarrow> 'a list \<Rightarrow> 'a list" where
  "permute s [] = []"
| "permute s (x # xs) =
     insert_at (s mod Suc (length xs)) x (permute (s div Suc (length xs)) xs)"

text \<open>
  The sources of randomness of one run: the \<open>n\<close>-th draw of \<open>rand.Float64\<close> and the
  arrangement chosen by the \<open>n\<close>-th order-sensitive \<open>range\<close> loop or shuffle. A counter (the
  tick) is threaded through the code and advanced at each use.
\<close>

record entropy =
  float64 :: "nat \<Rightarrow> real"
  arrangement :: "nat \<Rightarrow> nat"

text \<open>The dynamically typed values that \<open>encoding/json\<close> decodes into \<open>any\<close>.\<close>

datatype any =
    ANil
  | ABool bool
  | AFloat real
  | AString string
  | AArray "any list"
  | AMap "(string \<times> any) list"

record NodeDefinition =
  Name :: string
  ParentNames :: "string list"
  PossibleValues :: "string list"
  ConditionalProbabilities :: any

record Node =
  Definition :: NodeDefinition

record Network =
  NodesInSamplingOrder :: "Node list"
  NodesByName :: "(string, Node) gomap"

section \<open>Conditional probability lookup\<close>

text \<open>
  One pass through the body of the loop of \<open>getProbabilitiesGivenKnownValues\<close>: the new
  cursor, or \<open>None\<close> where the body executes \<open>break\<close>. The type assertion
  \<open>m["deeper"].(map[string]any)\<close> fails when the key is absent or bound to anything
  that is not a map.
\<close>

definition cpt_step :: "any \<Rightarrow> string \<Rightarrow> any option" where
  "cpt_step probabilities parentValue =
     (case probabilities of
        AMap m \<Rightarrow>
          (case map_of m ''deeper'' of
             Some (AMap deeper) \<Rightarrow>
               (case map_of deeper parentValue of
                  Some val \<Rightarrow> Some val
                | None \<Rightarrow>
                    (case map_of m ''skip'' of
                       Some skip \<Rightarrow> Some skip
                     | None \<Rightarrow> None))
           | _ \<Rightarrow>
               (case map_of m ''skip'' of
                  Some skip \<Rightarrow> Some skip
                | None \<Rightarrow> None))
      | _ \<Rightarrow> None)"

text \<open>The loop over \<open>ParentNames\<close>; \<open>break\<close> leaves the cursor where it is.\<close>

fun cpt_walk :: "any \<Rightarrow> string list \<Rightarrow> (string, string) gomap \<Rightarrow> any" where
  "cpt_walk probabilities [] parentValues = probabilities"
| "cpt_walk probabilities (parentName # rest) parentValues =
     (case cpt_step probabilities (get_string parentValues parentName) of
        Some probabilities' \<Rightarrow> cpt_walk probabilities' rest parentValues
      | None \<Rightarrow> probabilities)"

text \<open>The final loop: the entries of the cursor whose value is a \<open>float64\<close>.\<close>

fun float_entry :: "string \<times> any \<Rightarrow> (string \<times> real) option" where
  "float_entry (k, AFloat f) = Some (k, f)"
| "float_entry (k, _) = None"

definition float_entries :: "any \<Rightarrow> (string, real) gomap" where
  "float_entries probabilities =
     (case probabilities of
        AMap m \<Rightarrow> List.map_filter float_entry (map_entries m)
      | _ \<Rightarrow> [])"

definition getProbabilitiesGivenKnownValues ::
  "Node \<Rightarrow> (string, string) gomap \<Rightarrow> (string, real) gomap" where
  "getProbabilitiesGivenKnownValues n parentValues =
     float_entries
       (cpt_walk (ConditionalProbabilities (Definition n))
          (ParentNames (Definition n)) parentValues)"

subsection \<open>The lookup as the specification words it\<close>

text \<open>
  A subtree has a \<open>deeper\<close> child when it is a mapping whose \<open>deeper\<close> entry is a mapping,
  and a \<open>skip\<close> child when it is a mapping with a \<open>skip\<close> entry.
\<close>

definition deeper_child :: "any \<Rightarrow> (string \<times> any) list option" where
  "deeper_child t =
     (case t of
        AMap m \<Rightarrow> (case map_of m ''deeper'' of Some (AMap d) \<Rightarrow> Some d | _ \<Rightarrow> None)
      | _ \<Rightarrow> None)"

definition skip_child :: "any \<Rightarrow> any option" where
  "skip_child t = (case t of AMap m \<Rightarrow> map_of m ''skip'' | _ \<Rightarrow> None)"

text \<open>One level of the walk: the subtree to descend into, or \<open>None\<close> to halt.\<close>

definition spec_descend :: "any \<Rightarrow> string \<Rightarrow> any option" where
  "spec_descend t pv =
     (case deeper_child t of
        Some d \<Rightarrow> (if pv \<in> fst ` set d then map_of d pv else skip_child t)
      | None \<Rightarrow> skip_child t)"

fun spec_walk :: "any \<Rightarrow> string list \<Rightarrow> (string \<Rightarrow> string) \<Rightarrow> any" where
  "spec_walk t [] assigned = t"
| "spec_walk t (parent # rest) assigned =
     (case spec_descend t (assigned parent) of
        Some child \<Rightarrow> spec_walk child rest assigned
      | None \<Rightarrow> t)"

text \<open>The float-valued keys of a subtree, as a partial function.\<close>

definition spec_leaf :: "any \<Rightarrow> string \<Rightarrow> real option" where
  "spec_leaf t k =
     (case t of
        AMap m \<Rightarrow> (case map_of m k of Some (AFloat f) \<Rightarrow> Some f | _ \<Rightarrow> None)
      | _ \<Rightarrow> None)"

definition spec_distribution :: "Node \<Rightarrow> (string \<Rightarrow> string) \<Rightarrow> string \<Rightarrow> real option" where
  "spec_distribution n assigned =
     spec_leaf
       (spec_walk (ConditionalProbabilities (Definition n))
          (ParentNames (Definition n)) assigned)"

section \<open>Drawing a value\<close>

text \<open>
  The loop of \<open>sampleRandomValueFromPossibilities\<close>; \<open>chosenValue\<close> keeps its initial value
  when the running sum never exceeds the anchor.
\<close>

fun cumulative_scan ::
  "string list \<Rightarrow> real \<Rightarrow> real \<Rightarrow> (string, real) gomap \<Rightarrow> string \<Rightarrow> string" where
  "cumulative_scan [] cumulativeProbability anchor probabilities chosenValue = chosenValue"
| "cumulative_scan (possibleValue # rest) cumulativeProbability anchor probabilities chosenValue =
     (let cumulativeProbability' = cumulativeProbability + get_float probabilities possibleValue
      in if cumulativeProbability' > anchor then possibleValue
         else cumulative_scan rest cumulativeProbability' anchor probabilities chosenValue)"

text \<open>The first argument is the outcome of \<open>rand.Float64()\<close>.\<close>

definition sampleRandomValueFromPossibilities ::
  "real \<Rightarrow> string list \<Rightarrow> real \<Rightarrow> (string, real) gomap \<Rightarrow> string" where
  "sampleRandomValueFromPossibilities r possibleValues totalProbability probabilities =
     (case possibleValues of
        [] \<Rightarrow> ''''
      | first # _ \<Rightarrow>
          cumulative_scan possibleValues 0 (r * totalProbability) probabilities first)"

definition slicesContains :: "string list \<Rightarrow> string \<Rightarrow> bool" where
  "slicesContains slice val = (val \<in> set slice)"

text \<open>\<open>Sample\<close>: the support is the key set of the distribution, in the order the
  \<open>range\<close> loop happens to produce, and the total is taken to be 1.\<close>

definition Sample :: "entropy \<Rightarrow> nat \<Rightarrow> Node \<Rightarrow> (string, string) gomap \<Rightarrow> string \<times> nat" where
  "Sample e t n parentValues =
     (let probabilities = getProbabilitiesGivenKnownValues n parentValues;
          possibleValues = permute (arrangement e t) (map_keys probabilities)
      in (sampleRandomValueFromPossibilities (float64 e t) possibleValues 1 probabilities, Suc t))"

definition SampleAccordingToRestrictions ::
  "entropy \<Rightarrow> nat \<Rightarrow> Node \<Rightarrow> (string, string) gomap \<Rightarrow> string list \<Rightarrow> string list \<Rightarrow> string \<times> nat" where
  "SampleAccordingToRestrictions e t n parentValues valuePossibilities bannedValues =
     (let probabilities = getProbabilitiesGivenKnownValues n parentValues;
          valuesInDistribution = permute (arrangement e t) (map_keys probabilities);
          possibleValues =
            (if length valuePossibilities = 0 then valuesInDistribution else valuePossibilities);
          validValues =
            filter (\<lambda>value. \<not> slicesContains bannedValues value
                              \<and> slicesContains valuesInDistribution value) possibleValues;
          totalProbability = foldl (\<lambda>total value. total + get_float probabilities value) 0 validValues
      in if length validValues = 0 then ('''', Suc t)
         else (sampleRandomValueFromPossibilities (float64 e t) validValues totalProbability
                 probabilities, Suc t))"

section \<open>Sampling a network\<close>

fun GenerateSample_nodes ::
  "entropy \<Rightarrow> Node list \<Rightarrow> (string, string) gomap \<Rightarrow> nat \<Rightarrow> (string, string) gomap \<times> nat" where
  "GenerateSample_nodes e [] sample t = (sample, t)"
| "GenerateSample_nodes e (node # rest) sample t =
     (case map_of sample (Name (Definition node)) of
        Some _ \<Rightarrow> GenerateSample_nodes e rest sample t
      | None \<Rightarrow>
          (let (v, t1) = Sample e t node sample
           in GenerateSample_nodes e rest (AList.update (Name (Definition node)) v sample) t1))"

definition GenerateSample ::
  "Network \<Rightarrow> entropy \<Rightarrow> nat \<Rightarrow> (string, string) gomap \<Rightarrow> (string, string) gomap \<times> nat" where
  "GenerateSample bn e t inputValues =
     GenerateSample_nodes e (NodesInSamplingOrder bn) (map_entries inputValues) t"

text \<open>
  The constrained sampler. \<open>sampleSoFar\<close> is one Go map shared by every level of the
  recursion and written in place, so each function takes its current content and returns,
  next to the map it hands back, the content the shared map has when the call ends (and
  the tick). A successful call hands back the shared map itself; a failed one hands back
  a fresh empty map and leaves the shared map as the failed attempts wrote it.
  \<open>sampling_loop\<close> is the \<open>for\<close> loop of the function, with \<open>bannedValues\<close> as
  its loop variable; it is only entered below the number of nodes.

  All strings that occur as keys anywhere in a conditional probability table bound the
  values a node can ever be given, which is what makes the loop end.
\<close>

fun cpt_keys :: "any \<Rightarrow> string list" where
  "cpt_keys (AMap m) = concat (map (\<lambda>kv. fst kv # cpt_keys (snd kv)) m)"
| "cpt_keys _ = []"

lemma mset_insert_at: "mset (insert_at i x ys) = add_mset x (mset ys)"
  unfolding insert_at_def
  by (metis append_take_drop_id mset.simps(2) union_mset_add_mset_right mset_append)

lemma mset_permute: "mset (permute s xs) = mset xs"
  by (induction xs arbitrary: s) (simp_all add: mset_insert_at)

lemma set_permute: "set (permute s xs) = set xs"
  by (metis mset_permute set_mset_mset)

lemma cumulative_scan_mem:
  "cumulative_scan vs c a p ch \<in> insert ch (set vs)"
  by (induction vs arbitrary: c) (auto simp: Let_def)

lemma sampleRandomValue_mem:
  "vs \<noteq> [] \<Longrightarrow> sampleRandomValueFromPossibilities r vs tot p \<in> set vs"
  using cumulative_scan_mem[of vs 0 "r * tot" p "hd vs"]
  by (cases vs) (auto simp: sampleRandomValueFromPossibilities_def)

lemma in_cpt_keys_entry:
  "(k, v) \<in> set m \<Longrightarrow> k \<in> set (cpt_keys (AMap m))"
  "(k, v) \<in> set m \<Longrightarrow> set (cpt_keys v) \<subseteq> set (cpt_keys (AMap m))"
  by force+

lemma cpt_keys_map_of:
  "map_of m k = Some v \<Longrightarrow> set (cpt_keys v) \<subseteq> set (cpt_keys (AMap m))"
  by (meson map_of_SomeD in_cpt_keys_entry(2))

lemma cpt_step_keys:
  assumes "cpt_step p v = Some p'"
  shows "set (cpt_keys p') \<subseteq> set (cpt_keys p)"
proof (cases p)
  case (AMap m)
  have skip: "map_of m ''skip'' = Some p' \<Longrightarrow> ?thesis"
    unfolding AMap by (rule cpt_keys_map_of)
  have deeper: "\<And>d. map_of m ''deeper'' = Some (AMap d) \<Longrightarrow> map_of d v = Some p' \<Longrightarrow> ?thesis"
    unfolding AMap by (meson cpt_keys_map_of subset_trans)
  show ?thesis
    using assms skip deeper unfolding AMap cpt_step_def
    by (auto split: option.splits any.splits)
qed (use assms in \<open>simp_all add: cpt_step_def\<close>)

lemma cpt_walk_keys:
  "set (cpt_keys (cpt_walk p ps pv)) \<subseteq> set (cpt_keys p)"
proof (induction ps arbitrary: p)
  case Nil
  show ?case by simp
next
  case (Cons a ps)
  show ?case
  proof (cases "cpt_step p (get_string pv a)")
    case None
    then show ?thesis by simp
  next
    case (Some p')
    then show ?thesis
      using Cons[of p'] cpt_step_keys[OF Some] by auto
  qed
qed

lemma float_entries_keys:
  "fst ` set (float_entries p) \<subseteq> set (cpt_keys p)"
proof (cases p)
  case (AMap m)
  have "\<And>kv kf. float_entry kv = Some kf \<Longrightarrow> fst kf = fst kv"
    by (metis float_entry.elims fst_conv option.distinct(1) option.inject)
  hence "fst ` set (List.map_filter float_entry (AList.clearjunk m)) \<subseteq> fst ` set (AList.clearjunk m)"
    by (force simp: map_filter_def)
  also have "\<dots> = fst ` set m" by (rule dom_clearjunk)
  also have "\<dots> \<subseteq> set (cpt_keys (AMap m))" by force
  finally show ?thesis by (simp add: AMap float_entries_def map_entries_def)
qed (simp_all add: float_entries_def)

lemma SampleAccordingToRestrictions_value:
  assumes "SampleAccordingToRestrictions e t n pv vp banned = (v, t')" "v \<noteq> []"
  shows "v \<in> fst ` set (getProbabilitiesGivenKnownValues n pv)" "v \<notin> set banned"
    "vp \<noteq> [] \<Longrightarrow> v \<in> set vp" 
proof -
  define probs where "probs = getProbabilitiesGivenKnownValues n pv"
  define vid where "vid = permute (arrangement e t) (map_keys probs)"
  define valid where "valid = filter (\<lambda>value. \<not> slicesContains banned value
                              \<and> slicesContains vid value) (if length vp = 0 then vid else vp)"
  have ne: "valid \<noteq> []"
    using assms unfolding SampleAccordingToRestrictions_def Let_def valid_def vid_def probs_def
    by (auto split: if_splits)
  obtain r tot where "v = sampleRandomValueFromPossibilities r valid tot probs"
    using assms ne unfolding SampleAccordingToRestrictions_def Let_def valid_def vid_def probs_def
    by (auto split: if_splits)
  hence mem: "v \<in> set valid" using sampleRandomValue_mem[OF ne] by simp
  have "set vid = fst ` set probs"
    unfolding vid_def set_permute map_keys_def map_entries_def
    by (simp add: dom_clearjunk)
  with mem show "v \<in> fst ` set (getProbabilitiesGivenKnownValues n pv)"
    by (auto simp: valid_def slicesContains_def probs_def)
  from mem show "v \<notin> set banned" by (auto simp: valid_def slicesContains_def)
  from mem show "vp \<noteq> [] \<Longrightarrow> v \<in> set vp" by (auto simp: valid_def)
qed

lemma SampleAccordingToRestrictions_tick:
  "snd (SampleAccordingToRestrictions e t n pv vp banned) = Suc t"
  by (simp add: SampleAccordingToRestrictions_def Let_def)

lemma SampleAccordingToRestrictions_cpt_key:
  assumes "SampleAccordingToRestrictions e t n pv vp banned = (v, t')" "v \<noteq> []"
  shows "v \<in> set (cpt_keys (ConditionalProbabilities (Definition n)))"
  using SampleAccordingToRestrictions_value(1)[OF assms] float_entries_keys cpt_walk_keys
  unfolding getProbabilitiesGivenKnownValues_def by blast

function recursivelyGenerateConsistentSampleWhenPossible ::
    "Network \<Rightarrow> entropy \<Rightarrow> (string, string list) gomap \<Rightarrow> nat \<Rightarrow>
     (string, string) gomap \<Rightarrow> nat \<Rightarrow>
     (string, string) gomap \<times> (string, string) gomap \<times> nat"
  and sampling_loop ::
    "Network \<Rightarrow> entropy \<Rightarrow> (string, string list) gomap \<Rightarrow> nat \<Rightarrow> string list \<Rightarrow>
     (string, string) gomap \<Rightarrow> nat \<Rightarrow>
     (string, string) gomap \<times> (string, string) gomap \<times> nat"
where
  "recursivelyGenerateConsistentSampleWhenPossible bn e valuePossibilities depth sampleSoFar t =
     (if depth \<ge> length (NodesInSamplingOrder bn) then (sampleSoFar, sampleSoFar, t)
      else sampling_loop bn e valuePossibilities depth [] sampleSoFar t)"
| "sampling_loop bn e valuePossibilities depth bannedValues sampleSoFar t =
     (if depth \<ge> length (NodesInSamplingOrder bn) then ([], sampleSoFar, t)
      else
        let node = NodesInSamplingOrder bn ! depth;
            name = Name (Definition node);
            (sampleValue, t1) =
               SampleAccordingToRestrictions e t node sampleSoFar
                 (get_slice valuePossibilities name) bannedValues
        in if sampleValue = '''' then ([], sampleSoFar, t1)
           else
             let sampleSoFar1 = AList.update name sampleValue sampleSoFar
             in if depth + 1 < length (NodesInSamplingOrder bn) then
                  (let (sample, sampleSoFar2, t2) =
                         recursivelyGenerateConsistentSampleWhenPossible bn e valuePossibilities
                           (depth + 1) sampleSoFar1 t1
                   in if map_len sample > 0 then (sample, sampleSoFar2, t2)
                      else sampling_loop bn e valuePossibilities depth
                             (bannedValues @ [sampleValue]) sampleSoFar2 t2)
                else (sampleSoFar1, sampleSoFar1, t1))"
  by pat_completeness auto


termination
proof (relation "inv_image (less_than <*lex*> less_than <*lex*> less_than)
    (\<lambda>x. case x of
       Inl (bn, e, vp, depth, s, t) \<Rightarrow> (length (NodesInSamplingOrder bn) - depth, 1::nat, 0::nat)
     | Inr (bn, e, vp, depth, banned, s, t) \<Rightarrow>
         (length (NodesInSamplingOrder bn) - depth, 0,
          card (set (cpt_keys (ConditionalProbabilities
                  (Definition (NodesInSamplingOrder bn ! depth)))) - set banned)))", goal_cases)
  case 1
  show ?case by (intro wf_inv_image wf_lex_prod wf_less_than)
next
  case (2 bn e vp depth s t)
  then show ?case by simp
next
  case (3 bn e vp depth banned s t node name p v t1 s1)
  then show ?case by auto
next
  case (4 bn e vp depth banned s t node name p v t1 s1 r x y s2 t2)
  let ?K = "set (cpt_keys (ConditionalProbabilities (Definition node)))"
  from 4 have v: "v \<in> ?K" "v \<notin> set banned"
    using SampleAccordingToRestrictions_cpt_key[of e t node s "get_slice vp name" banned v t1]
      SampleAccordingToRestrictions_value(2)[of e t node s "get_slice vp name" banned v t1]
    by auto
  have "?K - set (banned @ [v]) \<subset> ?K - set banned" using v by auto
  hence "card (?K - set (banned @ [v])) < card (?K - set banned)"
    by (intro psubset_card_mono) auto
  with 4 show ?case by simp
qed


definition GenerateConsistentSampleWhenPossible ::
  "Network \<Rightarrow> entropy \<Rightarrow> nat \<Rightarrow> (string, string list) gomap \<Rightarrow> (string, string) gomap \<times> nat" where
  "GenerateConsistentSampleWhenPossible bn e t valuePossibilities =
     (case recursivelyGenerateConsistentSampleWhenPossible bn e valuePossibilities 0 [] t of
        (sample, _, t') \<Rightarrow> (sample, t'))"

declare recursivelyGenerateConsistentSampleWhenPossible.simps [simp del]
declare sampling_loop.simps [simp del]

text \<open>The name of the node at a position of the sampling order, and the names of the nodes
  at a position or later.\<close>

definition node_name :: "Network \<Rightarrow> nat \<Rightarrow> string" where
  "node_name bn i = Name (Definition (NodesInSamplingOrder bn ! i))"

definition names_from :: "Network \<Rightarrow> nat \<Rightarrow> string list" where
  "names_from bn d = map (\<lambda>n. Name (Definition n)) (drop d (NodesInSamplingOrder bn))"

text \<open>
  What every call of the sampler establishes, for the map it hands back \<open>r\<close> and the content
  \<open>s'\<close> of the shared map afterwards: keys that name no node at this depth or deeper are
  untouched; the map handed back is empty or is the shared map; and when it is not empty,
  every node from this depth on whose name is restricted to a non-empty list is bound to a
  member of that list.
\<close>

definition sampler_post ::
  "Network \<Rightarrow> (string, string list) gomap \<Rightarrow> nat \<Rightarrow> (string, string) gomap \<Rightarrow>
   (string, string) gomap \<times> (string, string) gomap \<times> nat \<Rightarrow> bool" where
  "sampler_post bn vp d s res =
     (case res of (r, s', t') \<Rightarrow>
        (\<forall>k. k \<notin> set (names_from bn d) \<longrightarrow> map_of s' k = map_of s k)
        \<and> (r = [] \<or> r = s')
        \<and> (r \<noteq> [] \<longrightarrow>
             (\<forall>i. d \<le> i \<and> i < length (NodesInSamplingOrder bn)
                  \<and> get_slice vp (node_name bn i) \<noteq> []
                \<longrightarrow> (\<exists>v\<in>set (get_slice vp (node_name bn i)).
                       map_of s' (node_name bn i) = Some v))))"

text \<open>
  A chain of three nodes used as a concrete network: \<open>B\<close> is determined by \<open>A\<close> and
  \<open>C\<close> by \<open>B\<close>, so that restricting \<open>C\<close> to \<open>c2\<close> makes the first choice \<open>a1\<close> fail
  two levels down. Every random draw is 0 and every \<open>range\<close> loop keeps the stored order.
\<close>

definition chain_A :: Node where
  "chain_A = \<lparr>Definition = \<lparr>Name = ''A'', ParentNames = [], PossibleValues = [''a1'', ''a2''],
      ConditionalProbabilities = AMap [(''a1'', AFloat (1/2)), (''a2'', AFloat (1/2))]\<rparr>\<rparr>"

definition chain_B :: Node where
  "chain_B = \<lparr>Definition = \<lparr>Name = ''B'', ParentNames = [''A''], PossibleValues = [''b1'', ''b2''],
      ConditionalProbabilities =
        AMap [(''deeper'', AMap [(''a1'', AMap [(''b1'', AFloat 1)]),
                                 (''a2'', AMap [(''b2'', AFloat 1)])])]\<rparr>\<rparr>"

definition chain_C :: Node where
  "chain_C = \<lparr>Definition = \<lparr>Name = ''C'', ParentNames = [''B''], PossibleValues = [''c1'', ''c2''],
      ConditionalProbabilities =
        AMap [(''deeper'', AMap [(''b1'', AMap [(''c1'', AFloat 1)]),
                                 (''b2'', AMap [(''c2'', AFloat 1)])])]\<rparr>\<rparr>"

definition chain_net :: Network where
  "chain_net = \<lparr>NodesInSamplingOrder = [chain_A, chain_B, chain_C],
             NodesByName = [(''A'', chain_A), (''B'', chain_B), (''C'', chain_C)]\<rparr>"

definition fixed_entropy :: entropy where
  "fixed_entropy = \<lparr>float64 = (\<lambda>_. 0), arrangement = (\<lambda>_. 0)\<rparr>"


section \<open>Constraint closure\<close>

text \<open>The errors the generators return, named after their messages.\<close>

datatype error = ConstraintsTooRestrictive | NoHeadersCanBeGenerated | FailedAfter10Attempts

definition ArrayIntersection :: "'a list \<Rightarrow> 'a list \<Rightarrow> 'a list" where
  "ArrayIntersection a b = filter (\<lambda>x. x \<in> set b) a"

text \<open>
  \<open>Undeeper\<close> and the depth-first search of \<open>filterByLastLevelKeys\<close> recurse through the
  values of a map in the order of a \<open>range\<close> loop; the weight of a tree (one more than the
  weights of its entries) decreases along every such call.
\<close>

fun any_weight :: "any \<Rightarrow> nat" where
  "any_weight (AMap m) = Suc (sum_list (map (\<lambda>kv. Suc (any_weight (snd kv))) m))"
| "any_weight _ = 0"

definition entries_weight :: "(string \<times> any) list \<Rightarrow> nat" where
  "entries_weight xs = sum_list (map (\<lambda>kv. Suc (any_weight (snd kv))) xs)"

lemma sum_list_permute:
  fixes f :: "'a \<Rightarrow> nat"
  shows "sum_list (map f (permute s xs)) = sum_list (map f xs)"
proof -
  have "mset (map f (permute s xs)) = mset (map f xs)"
    by (simp add: mset_permute)
  thus ?thesis by (metis sum_mset_sum_list)
qed

lemma sum_list_clearjunk_le:
  fixes f :: "('k \<times> 'v) \<Rightarrow> nat"
  shows "sum_list (map f (AList.clearjunk m)) \<le> sum_list (map f m)"
proof (induction m rule: clearjunk.induct)
  case 1
  show ?case by simp
next
  case (2 p ps)
  have "sum_list (map f (AList.delete (fst p) ps)) \<le> sum_list (map f ps)"
    unfolding AList.delete_eq by (rule sum_list_filter_le_nat)
  with 2 show ?case by simp
qed

lemma entries_weight_range:
  "entries_weight (permute s (map_entries m)) < any_weight (AMap m)"
  unfolding entries_weight_def map_entries_def sum_list_permute
  using sum_list_clearjunk_le[of "\<lambda>kv. Suc (any_weight (snd kv))" m]
  by simp

text \<open>
  \<open>Undeeper\<close>: \<open>skip\<close> entries are dropped, the entries of an undeepered \<open>deeper\<close> map are
  written into the result, every other entry is written undeepered under its own key. The
  order of the outer \<open>range\<close> loop decides which write survives when two keys collide.
\<close>

function Undeeper :: "entropy \<Rightarrow> nat \<Rightarrow> any \<Rightarrow> any \<times> nat"
  and Undeeper_range ::
    "entropy \<Rightarrow> nat \<Rightarrow> (string \<times> any) list \<Rightarrow> (string, any) gomap \<Rightarrow> (string, any) gomap \<times> nat"
where
  "Undeeper e t (AMap m) =
     (let (result, t') =
            Undeeper_range e (Suc t) (permute (arrangement e t) (map_entries m)) []
      in (AMap result, t'))"
| "Undeeper e t ANil = (ANil, t)"
| "Undeeper e t (ABool b) = (ABool b, t)"
| "Undeeper e t (AFloat f) = (AFloat f, t)"
| "Undeeper e t (AString s) = (AString s, t)"
| "Undeeper e t (AArray xs) = (AArray xs, t)"
| "Undeeper_range e t [] result = (result, t)"
| "Undeeper_range e t ((key, val) # rest) result =
     (if key = ''skip'' then Undeeper_range e t rest result
      else if key = ''deeper'' then
        (let (d, t1) = Undeeper e t val
         in case d of
              AMap deeperMap \<Rightarrow>
                Undeeper_range e t1 rest
                  (fold (\<lambda>(k, v) r. AList.update k v r) (map_entries deeperMap) result)
            | _ \<Rightarrow> Undeeper_range e t1 rest result)
      else
        (let (u, t1) = Undeeper e t val
         in Undeeper_range e t1 rest (AList.update key u result)))"
  by pat_completeness auto
termination
proof (relation "measure (\<lambda>x. case x of
          Inl (e, t, obj) \<Rightarrow> any_weight obj
        | Inr (e, t, xs, result) \<Rightarrow> entries_weight xs)", goal_cases)
  case 1
  show ?case by simp
next
  case (2 e t m)
  show ?case using entries_weight_range[of "arrangement e t" m] by simp
qed (simp_all add: entries_weight_def)


text \<open>
  \<open>filterByLastLevelKeys\<close>. At a leaf entry whose key is valid, the closure variable
  \<open>foundPaths\<close> is initialised with one singleton per element of the accumulator, or, when
  it is non-empty already, merged position by position with the accumulator (up to the
  shorter of the two).
\<close>

definition union_append :: "string list \<Rightarrow> string list \<Rightarrow> string list" where
  "union_append path extra = fold (\<lambda>v union. if v \<in> set union then union else union @ [v]) extra path"

definition record_path :: "string list \<Rightarrow> string list list \<Rightarrow> string list list" where
  "record_path acc foundPaths =
     (if length foundPaths = 0 then map (\<lambda>x. [x]) acc
      else map (\<lambda>(path, extra). union_append path extra)
             (zip foundPaths (map (\<lambda>x. [x]) acc)))"

function dfs ::
    "entropy \<Rightarrow> nat \<Rightarrow> string list \<Rightarrow> any \<Rightarrow> string list \<Rightarrow> string list list \<Rightarrow>
     string list list \<times> nat"
  and dfs_range ::
    "entropy \<Rightarrow> nat \<Rightarrow> string list \<Rightarrow> (string \<times> any) list \<Rightarrow> string list \<Rightarrow>
     string list list \<Rightarrow> string list list \<times> nat"
where
  "dfs e t validKeys (AMap m) acc foundPaths =
     dfs_range e (Suc t) validKeys (permute (arrangement e t) (map_entries m)) acc foundPaths"
| "dfs e t validKeys ANil acc foundPaths = (foundPaths, t)"
| "dfs e t validKeys (ABool b) acc foundPaths = (foundPaths, t)"
| "dfs e t validKeys (AFloat f) acc foundPaths = (foundPaths, t)"
| "dfs e t validKeys (AString s) acc foundPaths = (foundPaths, t)"
| "dfs e t validKeys (AArray xs) acc foundPaths = (foundPaths, t)"
| "dfs_range e t validKeys [] acc foundPaths = (foundPaths, t)"
| "dfs_range e t validKeys ((key, val) # rest) acc foundPaths =
     (case val of
        AMap valMap \<Rightarrow>
          (let (foundPaths1, t1) = dfs e t validKeys val (acc @ [key]) foundPaths
           in dfs_range e t1 validKeys rest acc foundPaths1)
      | _ \<Rightarrow>
          dfs_range e t validKeys rest acc
            (if key \<in> set validKeys then record_path acc foundPaths else foundPaths))"
  by pat_completeness auto
termination
proof (relation "measure (\<lambda>x. case x of
          Inl (e, t, vk, tr, acc, fp) \<Rightarrow> any_weight tr
        | Inr (e, t, vk, xs, acc, fp) \<Rightarrow> entries_weight xs)", goal_cases)
  case 1
  show ?case by simp
next
  case (2 e t vk m acc fp)
  show ?case using entries_weight_range[of "arrangement e t" m] by simp
qed (simp_all add: entries_weight_def)

definition filterByLastLevelKeys ::
  "entropy \<Rightarrow> nat \<Rightarrow> any \<Rightarrow> string list \<Rightarrow> string list list \<times> nat" where
  "filterByLastLevelKeys e t tr validKeys = dfs e t validKeys tr [] []"

text \<open>
  \<open>GetConstraintClosure\<close>: the first loop builds one set of induced constraints per
  constrained key that names a node (\<open>closure_sets\<close>), the second intersects them
  (\<open>closure_merge\<close>, with \<open>closure_merge_range\<close> for the loop over one set).
\<close>

fun closure_sets ::
  "Network \<Rightarrow> entropy \<Rightarrow> nat \<Rightarrow> (string \<times> string list) list \<Rightarrow>
   (string, string list) gomap list \<Rightarrow> bool \<Rightarrow>
   (error + (string, string list) gomap list \<times> bool) \<times> nat" where
  "closure_sets network e t [] sets foundMatchingValues = (Inr (sets, foundMatchingValues), t)"
| "closure_sets network e t ((key, vals) # rest) sets foundMatchingValues =
     (if length vals = 0 then (Inl ConstraintsTooRestrictive, t)
      else
        case map_of (NodesByName network) key of
          None \<Rightarrow> closure_sets network e t rest sets foundMatchingValues
        | Some node \<Rightarrow>
            (let (tr, t1) = Undeeper e t (ConditionalProbabilities (Definition node));
                 (zippedValues, t2) = filterByLastLevelKeys e t1 tr vals;
                 foundMatchingValues' = (length zippedValues > 0 \<or> foundMatchingValues);
                 set0 = fold (\<lambda>(parent, x) s. AList.update parent x s)
                          (zip (ParentNames (Definition node)) zippedValues) [];
                 set1 = AList.update key vals set0
             in closure_sets network e t2 rest (sets @ [set1]) foundMatchingValues'))"

fun closure_merge_range ::
  "(string \<times> string list) list \<Rightarrow> (string, string list) gomap \<Rightarrow>
   error + (string, string list) gomap" where
  "closure_merge_range [] result = Inr result"
| "closure_merge_range ((key, vals) # rest) result =
     (let result' =
            (case map_of result key of
               Some existingVals \<Rightarrow> AList.update key (ArrayIntersection existingVals vals) result
             | None \<Rightarrow> AList.update key vals result)
      in if length (get_slice result' key) = 0 then Inl ConstraintsTooRestrictive
         else closure_merge_range rest result')"

fun closure_merge ::
  "entropy \<Rightarrow> nat \<Rightarrow> (string, string list) gomap list \<Rightarrow> (string, string list) gomap \<Rightarrow>
   (error + (string, string list) gomap) \<times> nat" where
  "closure_merge e t [] result = (Inr result, t)"
| "closure_merge e t (set1 # sets) result =
     (case closure_merge_range (permute (arrangement e t) (map_entries set1)) result of
        Inl err \<Rightarrow> (Inl err, Suc t)
      | Inr result' \<Rightarrow> closure_merge e (Suc t) sets result')"

definition GetConstraintClosure ::
  "Network \<Rightarrow> entropy \<Rightarrow> nat \<Rightarrow> (string, string list) gomap \<Rightarrow>
   (error + (string, string list) gomap) \<times> nat" where
  "GetConstraintClosure network e t possibleValues =
     (case closure_sets network e (Suc t)
             (permute (arrangement e t) (map_entries possibleValues)) [] False of
        (Inl err, t1) \<Rightarrow> (Inl err, t1)
      | (Inr (sets, foundMatchingValues), t1) \<Rightarrow>
          if \<not> foundMatchingValues then (Inr [], t1)
          else closure_merge e t1 sets [])"

text \<open>A set of induced constraints binds only the key of a node of the network and names of
  that node's parents.\<close>

definition built_for :: "Network \<Rightarrow> (string, string list) gomap \<Rightarrow> bool" where
  "built_for network s =
     (\<exists>key node. map_of (NodesByName network) key = Some node
        \<and> dom (map_of s) \<subseteq> insert key (set (ParentNames (Definition node))))"

section \<open>Strings\<close>

text \<open>
  Strings are taken to be ASCII, as header names, locales and browser strings are:
  \<open>strings.ToLower\<close>, \<open>strings.ToUpper\<close> and \<open>unicode.ToUpper\<close> change the 26 letters
  and nothing else.
\<close>

fun translate :: "string \<Rightarrow> string \<Rightarrow> char \<Rightarrow> char" where
  "translate (f # fs) (t # ts) c = (if c = f then t else translate fs ts c)"
| "translate _ _ c = c"

definition to_lower_char :: "char \<Rightarrow> char" where
  "to_lower_char = translate ''ABCDEFGHIJKLMNOPQRSTUVWXYZ'' ''abcdefghijklmnopqrstuvwxyz''"

definition to_upper_char :: "char \<Rightarrow> char" where
  "to_upper_char = translate ''abcdefghijklmnopqrstuvwxyz'' ''ABCDEFGHIJKLMNOPQRSTUVWXYZ''"

definition ToLower :: "string \<Rightarrow> string" where "ToLower s = map to_lower_char s"
definition ToUpper :: "string \<Rightarrow> string" where "ToUpper s = map to_upper_char s"

text \<open>\<open>strings.HasPrefix\<close>, \<open>strings.Contains\<close>, \<open>strings.Split\<close> on a one-byte
  separator, and \<open>strings.Join\<close>.\<close>

fun HasPrefix :: "string \<Rightarrow> string \<Rightarrow> bool" where
  "HasPrefix s [] = True"
| "HasPrefix [] (p # ps) = False"
| "HasPrefix (c # s) (p # ps) = (c = p \<and> HasPrefix s ps)"

fun Contains :: "string \<Rightarrow> string \<Rightarrow> bool" where
  "Contains [] substr = (substr = [])"
| "Contains (c # s) substr = (HasPrefix (c # s) substr \<or> Contains s substr)"

fun split_parts :: "char \<Rightarrow> string \<Rightarrow> string \<Rightarrow> string list" where
  "split_parts sep [] cur = [cur]"
| "split_parts sep (c # s) cur =
     (if c = sep then cur # split_parts sep s [] else split_parts sep s (cur @ [c]))"

definition Split :: "string \<Rightarrow> char \<Rightarrow> string list" where
  "Split s sep = split_parts sep s []"

fun Join :: "string list \<Rightarrow> string \<Rightarrow> string" where
  "Join [] sep = []"
| "Join [p] sep = p"
| "Join (p # q # ps) sep = p @ sep @ Join (q # ps) sep"

text \<open>
  \<open>strconv.FormatFloat(q, 'f', 1, 64)\<close> for a quality \<open>q = 1.0 - float64(x) * 0.1\<close>. The
  exact value of \<open>q\<close> is a whole number of tenths, \<open>10 - x\<close>, and the rounding error of the
  two floating-point operations is far below the 0.05 that would change the digit printed,
  so the function is given the number of tenths and prints it with one decimal.
\<close>

definition digit_char :: "nat \<Rightarrow> char" where
  "digit_char d = ''0123456789'' ! d"

function decimal :: "nat \<Rightarrow> string" where
  "decimal n = (if n < 10 then [digit_char n] else decimal (n div 10) @ [digit_char (n mod 10)])"
  by pat_completeness auto
termination by (relation "measure id") auto

declare decimal.simps [simp del]

definition FormatFloat_f1 :: "int \<Rightarrow> string" where
  "FormatFloat_f1 tenths =
     (if tenths < 0 then ''-'' else '''')
       @ decimal (nat \<bar>tenths\<bar> div 10) @ ''.'' @ [digit_char (nat \<bar>tenths\<bar> mod 10)]"

section \<open>The Accept-Language field\<close>

definition ShuffleArray :: "entropy \<Rightarrow> nat \<Rightarrow> string list \<Rightarrow> string list \<times> nat" where
  "ShuffleArray e t arr = (permute (arrangement e t) arr, Suc t)"

text \<open>The second loop of \<open>getAcceptLanguageField\<close>: a locale that is not high-level and
  contains no high-level locale is itself added to the high-level locales.\<close>

fun add_high_level :: "string list \<Rightarrow> string list \<Rightarrow> string list" where
  "add_high_level [] highLevelLocales = highLevelLocales"
| "add_high_level (locale # rest) highLevelLocales =
     add_high_level rest
       (if locale \<notin> set highLevelLocales then
          (if list_ex (\<lambda>highLevelLocale. Contains locale highLevelLocale) highLevelLocales
           then highLevelLocales else highLevelLocales @ [locale])
        else highLevelLocales)"

text \<open>The function up to the point where \<open>localesInAddingOrder\<close> is complete.\<close>

definition localesInAddingOrder :: "entropy \<Rightarrow> nat \<Rightarrow> string list \<Rightarrow> string list \<times> nat" where
  "localesInAddingOrder e t localesFromOptions =
     (let locales = localesFromOptions;
          highLevelLocales0 = filter (\<lambda>locale. \<not> Contains locale ''-'') locales;
          highLevelLocales1 = add_high_level locales highLevelLocales0;
          (highLevelLocales, t1) = ShuffleArray e t highLevelLocales1;
          (locales', t2) = ShuffleArray e t1 locales
      in (concat (map (\<lambda>highLevelLocale.
                    filter (\<lambda>locale. Contains locale highLevelLocale
                                     \<and> locale \<notin> set highLevelLocales) locales'
                    @ [highLevelLocale]) highLevelLocales), t2))"

text \<open>The loop \<open>for x := 1; x < len(localesInAddingOrder); x++\<close>.\<close>

function append_qualities :: "string list \<Rightarrow> nat \<Rightarrow> string \<Rightarrow> string" where
  "append_qualities ls x acceptLanguageFieldValue =
     (if x < length ls then
        append_qualities ls (x + 1)
          (acceptLanguageFieldValue @ '','' @ ls ! x @ '';q='' @ FormatFloat_f1 (10 - int x))
      else acceptLanguageFieldValue)"
  by pat_completeness auto
termination by (relation "measure (\<lambda>(ls, x, acc). length ls - x)") auto

declare append_qualities.simps [simp del]

definition getAcceptLanguageField :: "entropy \<Rightarrow> nat \<Rightarrow> string list \<Rightarrow> string \<times> nat" where
  "getAcceptLanguageField e t localesFromOptions =
     (let (ls, t') = localesInAddingOrder e t localesFromOptions
      in if length ls = 0 then ('''', t')
         else (append_qualities ls 1 (ls ! 0), t'))"

text \<open>
  A network whose only node \<open>C\<close> lists a parent \<open>B\<close> that is not itself a node of the
  network; nothing in the loader rejects such a definition.
\<close>

definition orphan_net :: Network where
  "orphan_net = \<lparr>NodesInSamplingOrder = [chain_C], NodesByName = [(''C'', chain_C)]\<rparr>"


section \<open>Properties of the conditional probability lookup\<close>

lemma cpt_step_spec_descend: "cpt_step t pv = spec_descend t pv"
proof (cases t)
  case (AMap m)
  show ?thesis
  proof (cases "deeper_child t")
    case None
    then show ?thesis
      unfolding AMap cpt_step_def spec_descend_def deeper_child_def skip_child_def
      by (auto split: option.splits any.splits)
  next
    case (Some d)
    hence d: "map_of m ''deeper'' = Some (AMap d)"
      unfolding AMap deeper_child_def by (auto split: option.splits any.splits)
    have "pv \<in> fst ` set d \<longleftrightarrow> map_of d pv \<noteq> None"
      by (simp add: map_of_eq_None_iff)
    then show ?thesis
      using Some d unfolding AMap cpt_step_def spec_descend_def skip_child_def
      by (auto split: option.splits)
  qed
qed (simp_all add: cpt_step_def spec_descend_def deeper_child_def skip_child_def)

lemma cpt_walk_spec_walk:
  "cpt_walk t ps parentValues = spec_walk t ps (get_string parentValues)"
  by (induction ps arbitrary: t) (simp_all add: cpt_step_spec_descend split: option.splits)

lemma float_entry_key: "float_entry kv = Some kf \<Longrightarrow> fst kf = fst kv"
  by (metis float_entry.elims fst_conv option.distinct(1) option.inject)

lemma map_filter_float_keys:
  "fst ` set (List.map_filter float_entry xs) \<subseteq> fst ` set xs"
  using float_entry_key by (force simp: map_filter_def)

lemma map_of_float_entries_distinct:
  "distinct (map fst xs) \<Longrightarrow>
   map_of (List.map_filter float_entry xs) k =
     (case map_of xs k of Some (AFloat f) \<Rightarrow> Some f | _ \<Rightarrow> None)"
proof (induction xs)
  case Nil
  show ?case by (simp add: map_filter_simps)
next
  case (Cons kv xs)
  obtain k' v where kv: "kv = (k', v)" by (cases kv)
  from Cons.prems have notin: "k' \<notin> fst ` set xs" and dist: "distinct (map fst xs)"
    by (auto simp: kv)
  have none: "map_of (List.map_filter float_entry xs) k' = None"
    using notin map_filter_float_keys[of xs] by (auto simp: map_of_eq_None_iff)
  show ?case
    using Cons.IH[OF dist] none
    by (cases v) (auto simp: kv map_filter_simps)
qed

lemma map_of_float_entries: "map_of (float_entries t) = spec_leaf t"
proof (cases t)
  case (AMap m)
  show ?thesis
    unfolding AMap float_entries_def spec_leaf_def map_entries_def
    by (rule ext) (simp add: map_of_float_entries_distinct map_of_clearjunk)
qed (auto simp: float_entries_def spec_leaf_def)

lemma distinct_float_entries: "distinct (map fst (float_entries t))"
proof (cases t)
  case (AMap m)
  have "\<And>xs. distinct (map fst xs) \<Longrightarrow> distinct (map fst (List.map_filter float_entry xs))"
  proof -
    fix xs :: "(string \<times> any) list"
    show "distinct (map fst xs) \<Longrightarrow> distinct (map fst (List.map_filter float_entry xs))"
    proof (induction xs)
      case Nil
      show ?case by (simp add: map_filter_simps)
    next
      case (Cons kv xs)
      have "fst kv \<notin> fst ` set (List.map_filter float_entry xs)"
        using Cons.prems map_filter_float_keys[of xs] by auto
      then show ?case
        using Cons float_entry_key[of kv]
        by (cases "float_entry kv") (auto simp: map_filter_simps)
    qed
  qed
  then show ?thesis by (simp add: AMap float_entries_def map_entries_def)
qed (auto simp: float_entries_def)

text \<open>
  Claim C8. The lookup \<open>getProbabilitiesGivenKnownValues\<close> walks the conditional
  probability table over the parent names in order exactly as the specification words it:
  at each level it descends into \<open>deeper[pv]\<close> when a \<open>deeper\<close> child exists and maps the
  assigned parent value \<open>pv\<close> (the empty string when the parent is unassigned), otherwise
  into \<open>skip\<close> when a \<open>skip\<close> child exists, and otherwise halts at the current subtree.
  The returned distribution binds exactly the keys of the final subtree whose value is a
  float, each once, to that float; every other key is absent, and a final subtree that is
  not a mapping gives the empty distribution.
\<close>

theorem getProbabilitiesGivenKnownValues_walk:
  "cpt_walk (ConditionalProbabilities (Definition n)) (ParentNames (Definition n)) parentValues
     = spec_walk (ConditionalProbabilities (Definition n)) (ParentNames (Definition n))
         (get_string parentValues)
   \<and> map_of (getProbabilitiesGivenKnownValues n parentValues)
     = spec_distribution n (get_string parentValues)
   \<and> distinct (map fst (getProbabilitiesGivenKnownValues n parentValues))"
  by (simp add: cpt_walk_spec_walk getProbabilitiesGivenKnownValues_def spec_distribution_def
        map_of_float_entries distinct_float_entries)

theorem getProbabilitiesGivenKnownValues_walk_witness:
  "map_of (getProbabilitiesGivenKnownValues
      \<lparr>Definition = \<lparr>Name = ''os'', ParentNames = [''browser'', ''device''],
         PossibleValues = [''linux'', ''macos''],
         ConditionalProbabilities =
           AMap [(''deeper'', AMap [(''chrome'',
                    AMap [(''skip'', AMap [(''linux'', AFloat (1/4)), (''macos'', AFloat (3/4)),
                                           (''note'', AString ''x'')])])]),
                 (''skip'', AMap [(''linux'', AFloat 1)])]\<rparr>\<rparr>
      [(''browser'', ''chrome'')]) ''macos'' = Some (3/4)
   \<and> map_of (getProbabilitiesGivenKnownValues
      \<lparr>Definition = \<lparr>Name = ''os'', ParentNames = [''browser'', ''device''],
         PossibleValues = [''linux'', ''macos''],
         ConditionalProbabilities =
           AMap [(''deeper'', AMap [(''chrome'',
                    AMap [(''skip'', AMap [(''linux'', AFloat (1/4)), (''macos'', AFloat (3/4)),
                                           (''note'', AString ''x'')])])]),
                 (''skip'', AMap [(''linux'', AFloat 1)])]\<rparr>\<rparr>
      [(''browser'', ''chrome'')]) ''note'' = None"
  using getProbabilitiesGivenKnownValues_walk
    [of "\<lparr>Definition = \<lparr>Name = ''os'', ParentNames = [''browser'', ''device''],
         PossibleValues = [''linux'', ''macos''],
         ConditionalProbabilities =
           AMap [(''deeper'', AMap [(''chrome'',
                    AMap [(''skip'', AMap [(''linux'', AFloat (1/4)), (''macos'', AFloat (3/4)),
                                           (''note'', AString ''x'')])])]),
                 (''skip'', AMap [(''linux'', AFloat 1)])]\<rparr>\<rparr>"
        "[(''browser'', ''chrome'')]"]
  by (simp add: spec_distribution_def spec_leaf_def spec_descend_def deeper_child_def
        skip_child_def get_string_def)

section \<open>Properties of the node sampler\<close>

lemma cumulative_scan_never:
  "(\<forall>v\<in>set vs. 0 \<le> get_float p v) \<Longrightarrow> c + sum_list (map (get_float p) vs) \<le> a \<Longrightarrow>
   cumulative_scan vs c a p ch = ch"
proof (induction vs arbitrary: c)
  case Nil
  show ?case by simp
next
  case (Cons v vs)
  have "0 \<le> sum_list (map (get_float p) vs)"
    using Cons.prems(1) by (intro sum_list_nonneg) auto
  hence "c + get_float p v \<le> a" using Cons.prems(2) by simp
  moreover have "cumulative_scan vs (c + get_float p v) a p ch = ch"
    using Cons.prems by (intro Cons.IH) (auto simp: add.assoc)
  ultimately show ?case by (simp add: Let_def)
qed

text \<open>
  Claim C10. For every non-empty support list and every outcome \<open>r\<close> of the random draw,
  \<open>sampleRandomValueFromPossibilities\<close> returns an element of the support list. In
  particular, when the weights of the supported values are non-negative (the invariant of
  a distribution) and the total probability passed in is their sum and is 0, so that every
  supported value has weight 0, the running sum never exceeds the anchor and the function
  returns the first element of the list whatever \<open>r\<close> is; the empty string that reports
  failure is returned for the empty support list only.
\<close>

theorem sampleRandomValueFromPossibilities_support:
  assumes "possibleValues \<noteq> []"
  shows "sampleRandomValueFromPossibilities r possibleValues totalProbability probabilities
           \<in> set possibleValues
       \<and> ((\<forall>v\<in>set possibleValues. 0 \<le> get_float probabilities v)
            \<and> totalProbability = sum_list (map (get_float probabilities) possibleValues)
            \<and> totalProbability = 0
          \<longrightarrow> sampleRandomValueFromPossibilities r possibleValues totalProbability probabilities
                = hd possibleValues)"
proof -
  obtain first rest where pv: "possibleValues = first # rest"
    using assms by (cases possibleValues) auto
  have "cumulative_scan possibleValues 0 (r * totalProbability) probabilities first
          \<in> insert first (set possibleValues)"
    by (rule cumulative_scan_mem)
  hence mem: "sampleRandomValueFromPossibilities r possibleValues totalProbability probabilities
           \<in> set possibleValues"
    by (auto simp: pv sampleRandomValueFromPossibilities_def)
  have "sampleRandomValueFromPossibilities r possibleValues totalProbability probabilities
                = hd possibleValues"
    if nn: "\<forall>v\<in>set possibleValues. 0 \<le> get_float probabilities v"
      and tot: "totalProbability = sum_list (map (get_float probabilities) possibleValues)"
      and zero: "totalProbability = 0"
  proof -
    have "cumulative_scan possibleValues 0 (r * totalProbability) probabilities first = first"
      using nn tot zero by (intro cumulative_scan_never) auto
    thus ?thesis by (simp add: pv sampleRandomValueFromPossibilities_def)
  qed
  with mem show ?thesis by blast
qed

theorem sampleRandomValueFromPossibilities_support_witness:
  "[''a'', ''b''] \<noteq> []
   \<and> sampleRandomValueFromPossibilities (1/2) [''a'', ''b''] 0 [(''a'', 0), (''b'', 0)]
       \<in> set [''a'', ''b'']
   \<and> 0 \<le> get_float [(''a'', 0), (''b'', 0)] ''a''
   \<and> 0 \<le> get_float [(''a'', 0), (''b'', 0)] ''b''
   \<and> (0::real) = sum_list (map (get_float [(''a'', 0), (''b'', 0)]) [''a'', ''b''])
   \<and> sampleRandomValueFromPossibilities (1/2) [''a'', ''b''] 0 [(''a'', 0), (''b'', 0)] = ''a''"
  using sampleRandomValueFromPossibilities_support
          [where possibleValues = "[''a'', ''b'']" and probabilities = "[(''a'', 0), (''b'', 0)]"
             and totalProbability = 0 and r = "1/2"]
  by (simp add: get_float_def)


section \<open>Properties of the constrained sampler\<close>

lemma map_len_pos: "map_len m > 0 \<longleftrightarrow> m \<noteq> []"
  by (cases m) (simp_all add: map_len_def map_entries_def)

lemma set_drop_nth: "set (drop d xs) = {xs ! i | i. d \<le> i \<and> i < length xs}"
proof safe
  fix x assume "x \<in> set (drop d xs)"
  then obtain j where "j < length xs - d" "drop d xs ! j = x"
    by (auto simp: in_set_conv_nth)
  then show "\<exists>i. x = xs ! i \<and> d \<le> i \<and> i < length xs"
    by (intro exI[of _ "d + j"]) auto
next
  fix i assume "d \<le> i" "i < length xs"
  hence "drop d xs ! (i - d) = xs ! i" "i - d < length (drop d xs)" by auto
  thus "xs ! i \<in> set (drop d xs)" by (metis nth_mem)
qed

lemma set_names_from:
  "set (names_from bn d) = {node_name bn i | i. d \<le> i \<and> i < length (NodesInSamplingOrder bn)}"
  unfolding names_from_def node_name_def set_map set_drop_nth by blast

lemma names_from_Suc:
  "d < length (NodesInSamplingOrder bn) \<Longrightarrow>
   set (names_from bn d) = insert (node_name bn d) (set (names_from bn (Suc d)))"
  unfolding set_names_from
  by (auto simp: Suc_le_eq le_eq_less_or_eq)

lemma sampling_loop_unfold:
  assumes "depth < length (NodesInSamplingOrder bn)"
    and "SampleAccordingToRestrictions e t (NodesInSamplingOrder bn ! depth) s
           (get_slice vp (node_name bn depth)) banned = (v, t1)"
  shows "sampling_loop bn e vp depth banned s t =
     (if v = '''' then ([], s, t1)
      else if depth + 1 < length (NodesInSamplingOrder bn) then
        (case recursivelyGenerateConsistentSampleWhenPossible bn e vp (depth + 1)
                (AList.update (node_name bn depth) v s) t1 of
           (r, s2, t2) \<Rightarrow>
             if map_len r > 0 then (r, s2, t2)
             else sampling_loop bn e vp depth (banned @ [v]) s2 t2)
      else (AList.update (node_name bn depth) v s, AList.update (node_name bn depth) v s, t1))"
  using assms
  by (subst sampling_loop.simps) (simp add: node_name_def Let_def)

lemma sampler_invariant:
  "sampler_post bn vp depth s (recursivelyGenerateConsistentSampleWhenPossible bn e vp depth s t)"
  "sampler_post bn vp depth s (sampling_loop bn e vp depth banned s t)"
proof (induction bn e vp depth s t and bn e vp depth banned s t
       rule: recursivelyGenerateConsistentSampleWhenPossible_sampling_loop.induct)
  case (1 bn e vp depth s t)
  show ?case
  proof (cases "depth \<ge> length (NodesInSamplingOrder bn)")
    case True
    then show ?thesis
      by (subst recursivelyGenerateConsistentSampleWhenPossible.simps)
         (auto simp: sampler_post_def)
  next
    case False
    then show ?thesis
      using 1 by (subst recursivelyGenerateConsistentSampleWhenPossible.simps) simp
  qed
next
  case (2 bn e vp depth banned s t)
  let ?n = "length (NodesInSamplingOrder bn)"
  show ?case
  proof (cases "depth \<ge> ?n")
    case True
    then show ?thesis
      by (subst sampling_loop.simps) (simp add: sampler_post_def)
  next
    case False
    hence lt: "depth < ?n" by simp
    let ?node = "NodesInSamplingOrder bn ! depth"
    let ?name = "node_name bn depth"
    obtain v t1 where samp: "SampleAccordingToRestrictions e t ?node s
           (get_slice vp ?name) banned = (v, t1)"
      by (cases "SampleAccordingToRestrictions e t ?node s (get_slice vp ?name) banned")
    note unf = sampling_loop_unfold[OF lt samp]
    let ?s1 = "AList.update ?name v s"
    show ?thesis
    proof (cases "v = ''''")
      case True
      then show ?thesis unfolding unf by (simp add: sampler_post_def)
    next
      case vne: False
      have vin: "get_slice vp ?name \<noteq> [] \<Longrightarrow> v \<in> set (get_slice vp ?name)"
        using SampleAccordingToRestrictions_value(3)[OF samp] vne by simp
      have s1_other: "\<And>k. k \<noteq> ?name \<Longrightarrow> map_of ?s1 k = map_of s k"
        by (simp add: update_conv')
      have s1_name: "map_of ?s1 ?name = Some v"
        by (simp add: update_conv')
      show ?thesis
      proof (cases "depth + 1 < ?n")
        case last: False
        hence only: "\<And>i. depth \<le> i \<Longrightarrow> i < ?n \<Longrightarrow> i = depth" using lt by simp
        have mem: "?name \<in> set (names_from bn depth)" using lt by (auto simp: set_names_from)
        have frame: "\<forall>k. k \<notin> set (names_from bn depth) \<longrightarrow> map_of ?s1 k = map_of s k"
          using mem s1_other by metis
        have vals: "\<forall>i. depth \<le> i \<and> i < ?n \<and> get_slice vp (node_name bn i) \<noteq> []
                \<longrightarrow> (\<exists>v\<in>set (get_slice vp (node_name bn i)).
                       map_of ?s1 (node_name bn i) = Some v)"
        proof (intro allI impI)
          fix i assume i: "depth \<le> i \<and> i < ?n \<and> get_slice vp (node_name bn i) \<noteq> []"
          hence "i = depth" using only by simp
          with i show "\<exists>v\<in>set (get_slice vp (node_name bn i)).
                       map_of ?s1 (node_name bn i) = Some v"
            using s1_name vin by auto
        qed
        show ?thesis
          unfolding unf using vne last frame vals
          by (simp add: sampler_post_def)
      next
        case more: True
        obtain r s2 t2 where rec:
          "recursivelyGenerateConsistentSampleWhenPossible bn e vp (depth + 1) ?s1 t1 = (r, s2, t2)"
          by (cases "recursivelyGenerateConsistentSampleWhenPossible bn e vp (depth + 1) ?s1 t1")
        have ih1: "sampler_post bn vp (depth + 1) ?s1 (r, s2, t2)"
          using "2.IH"(1)[OF False refl refl refl samp[unfolded node_name_def, symmetric] vne refl more]
          rec by (simp add: node_name_def)
        have frame2: "\<And>k. k \<notin> set (names_from bn depth) \<Longrightarrow> map_of s2 k = map_of s k"
          using ih1 s1_other names_from_Suc[OF lt] by (auto simp: sampler_post_def)
        show ?thesis
        proof (cases "map_len r > 0")
          case True
          hence rne: "r \<noteq> []" by (simp add: map_len_pos)
          have rs2: "r = s2" using ih1 rne by (auto simp: sampler_post_def)
          have vals: "\<And>i. Suc depth \<le> i \<Longrightarrow> i < ?n \<Longrightarrow> get_slice vp (node_name bn i) \<noteq> [] \<Longrightarrow>
                 \<exists>v\<in>set (get_slice vp (node_name bn i)). map_of s2 (node_name bn i) = Some v"
            using ih1 rne by (auto simp: sampler_post_def)
          have here: "get_slice vp ?name \<noteq> [] \<Longrightarrow>
                 \<exists>v\<in>set (get_slice vp ?name). map_of s2 ?name = Some v"
          proof (cases "?name \<in> set (names_from bn (Suc depth))")
            case True
            then obtain j where "Suc depth \<le> j" "j < ?n" "node_name bn j = ?name"
              by (auto simp: set_names_from)
            then show "get_slice vp ?name \<noteq> [] \<Longrightarrow> ?thesis" using vals[of j] by auto
          next
            case False
            hence "map_of s2 ?name = Some v"
              using ih1 s1_name by (auto simp: sampler_post_def)
            then show "get_slice vp ?name \<noteq> [] \<Longrightarrow> ?thesis" using vin by auto
          qed
          have all: "\<And>i. depth \<le> i \<Longrightarrow> i < ?n \<Longrightarrow> get_slice vp (node_name bn i) \<noteq> [] \<Longrightarrow>
                 \<exists>v\<in>set (get_slice vp (node_name bn i)). map_of s2 (node_name bn i) = Some v"
          proof -
            fix i assume "depth \<le> i" "i < ?n" "get_slice vp (node_name bn i) \<noteq> []"
            then show "\<exists>v\<in>set (get_slice vp (node_name bn i)). map_of s2 (node_name bn i) = Some v"
              using vals[of i] here by (cases "i = depth") auto
          qed
          show ?thesis
            unfolding unf using vne more True rec frame2 rs2 all
            by (simp add: sampler_post_def)
        next
          case False
          have ih2: "sampler_post bn vp depth s2 (sampling_loop bn e vp depth (banned @ [v]) s2 t2)"
            using "2.IH"(2)[OF \<open>\<not> ?n \<le> depth\<close> refl refl refl samp[unfolded node_name_def, symmetric]
                 vne refl more refl _ _ False, of "(s2, t2)" s2 t2]
            rec by (simp add: node_name_def)
          show ?thesis
            unfolding unf using vne more False rec ih2 frame2
            by (auto simp: sampler_post_def split: prod.splits)
        qed
      qed
    qed
  qed
qed


lemmas chain_simps = chain_net_def chain_A_def chain_B_def chain_C_def fixed_entropy_def
  recursivelyGenerateConsistentSampleWhenPossible.simps sampling_loop.simps
  SampleAccordingToRestrictions_def getProbabilitiesGivenKnownValues_def
  float_entries_def map_entries_def map_keys_def map_len_def cpt_step_def get_string_def
  get_slice_def get_float_def slicesContains_def sampleRandomValueFromPossibilities_def
  insert_at_def map_filter_simps Let_def GenerateConsistentSampleWhenPossible_def

text \<open>
  Claim C1. Whenever \<open>GenerateConsistentSampleWhenPossible\<close> returns a non-empty sample,
  every key of the constraint map that is the name of a node of the network (a node of the
  sampling order, which is what the sampler traverses) and whose list is non-empty is bound
  in the sample to a member of its list. This holds for every network, every random draw
  and every iteration order.
\<close>

theorem GenerateConsistentSampleWhenPossible_respects_possibilities:
  assumes "GenerateConsistentSampleWhenPossible bn e t valuePossibilities = (sample, t')"
    and "map_len sample > 0"
    and "node \<in> set (NodesInSamplingOrder bn)"
    and "map_of valuePossibilities (Name (Definition node)) = Some allowed"
    and "allowed \<noteq> []"
  shows "\<exists>v\<in>set allowed. map_of sample (Name (Definition node)) = Some v"
proof -
  obtain s' where run:
    "recursivelyGenerateConsistentSampleWhenPossible bn e valuePossibilities 0 [] t = (sample, s', t')"
    using assms(1) unfolding GenerateConsistentSampleWhenPossible_def
    by (auto split: prod.splits)
  have post: "sampler_post bn valuePossibilities 0 [] (sample, s', t')"
    using sampler_invariant(1)[of bn valuePossibilities 0 "[]" e t] run by simp
  have ne: "sample \<noteq> []" using assms(2) by (simp add: map_len_pos)
  hence same: "sample = s'" using post by (auto simp: sampler_post_def)
  obtain i where i: "i < length (NodesInSamplingOrder bn)" "NodesInSamplingOrder bn ! i = node"
    using assms(3) by (auto simp: in_set_conv_nth)
  hence nm: "node_name bn i = Name (Definition node)" by (simp add: node_name_def)
  have "get_slice valuePossibilities (node_name bn i) = allowed"
    using assms(4) nm by (simp add: get_slice_def)
  thus ?thesis
    using post ne i(1) nm assms(5) same unfolding sampler_post_def by auto
qed

theorem GenerateConsistentSampleWhenPossible_respects_possibilities_witness:
  "GenerateConsistentSampleWhenPossible chain_net fixed_entropy 0 [(''C'', [''c2''])]
     = ([(''A'', ''a2''), (''B'', ''b2''), (''C'', ''c2'')], 7)
   \<and> (\<exists>v\<in>set [''c2'']. map_of [(''A'', ''a2''), (''B'', ''b2''), (''C'', ''c2'')] ''C'' = Some v)"
  using GenerateConsistentSampleWhenPossible_respects_possibilities
    [of chain_net fixed_entropy 0 "[(''C'', [''c2''])]"
        "[(''A'', ''a2''), (''B'', ''b2''), (''C'', ''c2'')]" 7 chain_C "[''c2'']"]
  by (simp add: chain_simps)

text \<open>
  Claim C2, as stated, fails: the sampler writes the shared map in place and never removes
  an entry. In the chain network with \<open>C\<close> restricted to \<open>c2\<close>, the descent from depth 0
  with \<open>A = a1\<close> fails (the call at depth 1 hands back the empty map), yet the shared map
  then holds \<open>B = b1\<close>, a key absent before the descent and written only by the failed
  branch; the loop at depth 0 bans \<open>a1\<close> and retries on that very map.
\<close>

theorem backtrack_observes_failed_branch:
  "fst (recursivelyGenerateConsistentSampleWhenPossible chain_net fixed_entropy [(''C'', [''c2''])] 1
     [(''A'', ''a1'')] 1) = []
   \<and> map_of [(''A'', ''a1'')] ''B'' = None
   \<and> map_of (fst (snd (recursivelyGenerateConsistentSampleWhenPossible chain_net fixed_entropy
         [(''C'', [''c2''])] 1 [(''A'', ''a1'')] 1))) ''B'' = Some ''b1''
   \<and> sampling_loop chain_net fixed_entropy [(''C'', [''c2''])] 0 [] [] 0
     = sampling_loop chain_net fixed_entropy [(''C'', [''c2''])] 0 [''a1'']
         [(''A'', ''a1''), (''B'', ''b1'')] 4"
  by (simp add: chain_simps)

text \<open>
  Claim C2, amended. When a descent fails (the recursive call hands back the empty map),
  the keys the caller can find changed in the working assignment are confined to the names
  of the nodes at the depth of the failed call or deeper: every other key is bound exactly
  as before the descent, and the map handed back is a fresh empty map.
\<close>

theorem failed_descent_frame:
  assumes "recursivelyGenerateConsistentSampleWhenPossible bn e valuePossibilities depth
             sampleSoFar t = (sample, sampleSoFar', t')"
    and "map_len sample = 0"
    and "k \<notin> set (names_from bn depth)"
  shows "sample = [] \<and> map_of sampleSoFar' k = map_of sampleSoFar k"
proof -
  have post: "sampler_post bn valuePossibilities depth sampleSoFar (sample, sampleSoFar', t')"
    using sampler_invariant(1)[of bn valuePossibilities depth sampleSoFar e t] assms(1) by simp
  have "sample = []" using assms(2) map_len_pos[of sample] by simp
  thus ?thesis using post assms(3) by (simp add: sampler_post_def)
qed

theorem failed_descent_frame_witness:
  "recursivelyGenerateConsistentSampleWhenPossible chain_net fixed_entropy [(''C'', [''c2''])] 1
     [(''A'', ''a1'')] 1 = ([], [(''A'', ''a1''), (''B'', ''b1'')], 4)
   \<and> map_of [(''A'', ''a1''), (''B'', ''b1'')] ''A'' = map_of [(''A'', ''a1'')] ''A''"
  using failed_descent_frame
    [of chain_net fixed_entropy "[(''C'', [''c2''])]" 1 "[(''A'', ''a1'')]" 1
        "[]" "[(''A'', ''a1''), (''B'', ''b1'')]" 4 "''A''"]
  by (simp add: chain_simps names_from_def)

section \<open>Properties of the constraint closure\<close>

lemma set_ArrayIntersection: "set (ArrayIntersection a b) = set a \<inter> set b"
  by (auto simp: ArrayIntersection_def)

lemma map_of_entries_iff:
  "(k, v) \<in> set (permute s (map_entries m)) \<longleftrightarrow> map_of m k = Some v"
  unfolding set_permute map_entries_def
  by (metis distinct_clearjunk map_of_clearjunk map_of_eq_Some_iff)

lemma fold_update_dom:
  "dom (map_of (fold (\<lambda>(p, x) s. AList.update p x s) zs s0)) = dom (map_of s0) \<union> fst ` set zs"
  by (induction zs arbitrary: s0) (auto simp: update_conv')

lemma closure_merge_range_sound:
  assumes "closure_merge_range xs result = Inr r"
  shows "(\<forall>k old. map_of result k = Some old \<longrightarrow> (\<exists>v. map_of r k = Some v \<and> set v \<subseteq> set old))
       \<and> (\<forall>k vals. (k, vals) \<in> set xs \<longrightarrow> (\<exists>v. map_of r k = Some v \<and> set v \<subseteq> set vals))
       \<and> dom (map_of r) \<subseteq> dom (map_of result) \<union> fst ` set xs"
  using assms
proof (induction xs arbitrary: result)
  case Nil
  then show ?case by auto
next
  case (Cons kv xs)
  obtain key vals where kv: "kv = (key, vals)" by (cases kv)
  define result' where "result' =
            (case map_of result key of
               Some existingVals \<Rightarrow> AList.update key (ArrayIntersection existingVals vals) result
             | None \<Rightarrow> AList.update key vals result)"
  have run: "closure_merge_range xs result' = Inr r"
    using Cons.prems unfolding kv result'_def
    by (simp add: Let_def split: if_splits)
  note ih = Cons.IH[OF run]
  have shrink: "\<And>k old. map_of result k = Some old \<Longrightarrow>
                  \<exists>v. map_of result' k = Some v \<and> set v \<subseteq> set old"
    unfolding result'_def
    by (auto simp: update_conv' set_ArrayIntersection split: option.splits)
  have here: "\<exists>v. map_of result' key = Some v \<and> set v \<subseteq> set vals"
    unfolding result'_def
    by (auto simp: update_conv' set_ArrayIntersection split: option.splits)
  have dom': "dom (map_of result') = insert key (dom (map_of result))"
    unfolding result'_def by (auto simp: update_conv' split: option.splits)
  have a: "\<forall>k old. map_of result k = Some old \<longrightarrow> (\<exists>v. map_of r k = Some v \<and> set v \<subseteq> set old)"
    using shrink ih by (meson subset_trans)
  have b: "\<forall>k vs. (k, vs) \<in> set (kv # xs) \<longrightarrow> (\<exists>v. map_of r k = Some v \<and> set v \<subseteq> set vs)"
  proof (intro allI impI)
    fix k vs assume "(k, vs) \<in> set (kv # xs)"
    then consider "k = key" "vs = vals" | "(k, vs) \<in> set xs" by (auto simp: kv)
    then show "\<exists>v. map_of r k = Some v \<and> set v \<subseteq> set vs"
    proof cases
      case 1
      then show ?thesis using here ih by (meson subset_trans)
    next
      case 2
      then show ?thesis using ih by blast
    qed
  qed
  have c: "dom (map_of r) \<subseteq> dom (map_of result) \<union> fst ` set (kv # xs)"
    using ih dom' by (auto simp: kv)
  from a b c show ?case by blast
qed

lemma closure_merge_sound:
  assumes "closure_merge e t sets result = (Inr r, t')"
  shows "(\<forall>k old. map_of result k = Some old \<longrightarrow> (\<exists>v. map_of r k = Some v \<and> set v \<subseteq> set old))
       \<and> (\<forall>s\<in>set sets. \<forall>k vals. map_of s k = Some vals \<longrightarrow>
              (\<exists>v. map_of r k = Some v \<and> set v \<subseteq> set vals))
       \<and> dom (map_of r) \<subseteq> dom (map_of result) \<union> (\<Union>s\<in>set sets. dom (map_of s))"
  using assms
proof (induction sets arbitrary: result t)
  case Nil
  then show ?case by auto
next
  case (Cons s1 sets)
  let ?xs = "permute (arrangement e t) (map_entries s1)"
  obtain result' where r1: "closure_merge_range ?xs result = Inr result'"
    and run: "closure_merge e (Suc t) sets result' = (Inr r, t')"
    using Cons.prems by (auto split: sum.splits)
  note ih = Cons.IH[OF run]
  note ih1 = ih[THEN conjunct1, rule_format]
  note ih2 = ih[THEN conjunct2, THEN conjunct1, rule_format]
  note ih3 = ih[THEN conjunct2, THEN conjunct2]
  note step = closure_merge_range_sound[OF r1]
  note step1 = step[THEN conjunct1, rule_format]
  note step2 = step[THEN conjunct2, THEN conjunct1, rule_format]
  note step3 = step[THEN conjunct2, THEN conjunct2]
  have xs_dom: "fst ` set ?xs = dom (map_of s1)"
    using map_of_entries_iff[of _ _ "arrangement e t" s1] by (force simp: dom_def)
  have a: "\<forall>k old. map_of result k = Some old \<longrightarrow> (\<exists>v. map_of r k = Some v \<and> set v \<subseteq> set old)"
  proof (intro allI impI)
    fix k old assume "map_of result k = Some old"
    then obtain v where v: "map_of result' k = Some v" "set v \<subseteq> set old"
      using step1 by blast
    then obtain w where "map_of r k = Some w" "set w \<subseteq> set v"
      using ih1 by blast
    with v show "\<exists>v. map_of r k = Some v \<and> set v \<subseteq> set old" by blast
  qed
  have b: "\<forall>s\<in>set (s1 # sets). \<forall>k vals. map_of s k = Some vals \<longrightarrow>
              (\<exists>v. map_of r k = Some v \<and> set v \<subseteq> set vals)"
  proof (intro ballI allI impI)
    fix s k vals assume s: "s \<in> set (s1 # sets)" and m: "map_of s k = Some vals"
    show "\<exists>v. map_of r k = Some v \<and> set v \<subseteq> set vals"
    proof (cases "s = s1")
      case True
      hence "(k, vals) \<in> set ?xs" using m by (simp add: map_of_entries_iff)
      then obtain v where v: "map_of result' k = Some v" "set v \<subseteq> set vals"
        using step2 by blast
      then obtain w where "map_of r k = Some w" "set w \<subseteq> set v"
        using ih1 by blast
      with v show ?thesis by blast
    next
      case False
      hence "s \<in> set sets" using s by simp
      thus ?thesis using ih2 m by blast
    qed
  qed
  have d1: "dom (map_of result') \<subseteq> dom (map_of result) \<union> dom (map_of s1)"
    using step3 unfolding xs_dom .
  have c: "dom (map_of r) \<subseteq> dom (map_of result) \<union> (\<Union>s\<in>set (s1 # sets). dom (map_of s))"
  proof
    fix k assume "k \<in> dom (map_of r)"
    hence "k \<in> dom (map_of result') \<union> (\<Union>s\<in>set sets. dom (map_of s))"
      using ih3 by (rule_tac subsetD)
    hence "k \<in> dom (map_of result) \<union> dom (map_of s1) \<or> k \<in> (\<Union>s\<in>set sets. dom (map_of s))"
      using d1 by blast
    thus "k \<in> dom (map_of result) \<union> (\<Union>s\<in>set (s1 # sets). dom (map_of s))"
      by auto
  qed
  from a b c show ?case by (intro conjI)
qed

lemma closure_sets_sound:
  assumes "closure_sets network e t xs sets found = (Inr (sets', found'), t')"
  shows "(\<forall>s\<in>set sets'. s \<in> set sets \<or> built_for network s)
       \<and> (\<forall>key vals node. (key, vals) \<in> set xs \<and> map_of (NodesByName network) key = Some node
             \<longrightarrow> (\<exists>s\<in>set sets'. map_of s key = Some vals))
       \<and> set sets \<subseteq> set sets'"
  using assms
proof (induction xs arbitrary: t sets found)
  case Nil
  then show ?case by auto
next
  case (Cons kv xs)
  obtain key vals where kv: "kv = (key, vals)" by (cases kv)
  have ne: "vals \<noteq> []" using Cons.prems by (auto simp: kv split: if_splits)
  show ?case
  proof (cases "map_of (NodesByName network) key")
    case None
    hence run: "closure_sets network e t xs sets found = (Inr (sets', found'), t')"
      using Cons.prems ne by (simp add: kv)
    note ih = Cons.IH[OF run]
    have a: "\<forall>s\<in>set sets'. s \<in> set sets \<or> built_for network s"
      using ih[THEN conjunct1] .
    have b: "\<forall>k vs node. (k, vs) \<in> set (kv # xs) \<and> map_of (NodesByName network) k = Some node
             \<longrightarrow> (\<exists>s\<in>set sets'. map_of s k = Some vs)"
    proof (intro allI impI)
      fix k vs node
      assume h: "(k, vs) \<in> set (kv # xs) \<and> map_of (NodesByName network) k = Some node"
      hence "k \<noteq> key" using None by auto
      hence "(k, vs) \<in> set xs" using h by (auto simp: kv)
      moreover have "\<forall>key vals node. (key, vals) \<in> set xs
             \<and> map_of (NodesByName network) key = Some node
             \<longrightarrow> (\<exists>s\<in>set sets'. map_of s key = Some vals)"
        using ih[THEN conjunct2, THEN conjunct1] .
      ultimately show "\<exists>s\<in>set sets'. map_of s k = Some vs" using h by blast
    qed
    have c: "set sets \<subseteq> set sets'" using ih[THEN conjunct2, THEN conjunct2] .
    from a b c show ?thesis by (intro conjI)
  next
    case (Some node)
    obtain tr t1 where u: "Undeeper e t (ConditionalProbabilities (Definition node)) = (tr, t1)"
      by (cases "Undeeper e t (ConditionalProbabilities (Definition node))")
    obtain zipped t2 where f: "filterByLastLevelKeys e t1 tr vals = (zipped, t2)"
      by (cases "filterByLastLevelKeys e t1 tr vals")
    define set0 where "set0 = fold (\<lambda>(parent, x) s. AList.update parent x s)
                          (zip (ParentNames (Definition node)) zipped) []"
    define set1 where "set1 = AList.update key vals set0"
    have run: "closure_sets network e t2 xs (sets @ [set1]) (length zipped > 0 \<or> found)
                 = (Inr (sets', found'), t')"
      using Cons.prems ne Some u f unfolding kv set1_def set0_def
      by (simp add: Let_def)
    note ih = Cons.IH[OF run]
    have "dom (map_of set0) \<subseteq> set (ParentNames (Definition node))"
      unfolding set0_def fold_update_dom by (auto dest: set_zip_leftD)
    hence "dom (map_of set1) \<subseteq> insert key (set (ParentNames (Definition node)))"
      unfolding set1_def by (auto simp: update_conv')
    hence built: "built_for network set1"
      unfolding built_for_def using Some by blast
    have key: "map_of set1 key = Some vals"
      unfolding set1_def by (simp add: update_conv')
    have sub: "set (sets @ [set1]) \<subseteq> set sets'" using ih[THEN conjunct2, THEN conjunct2] .
    hence in': "set1 \<in> set sets'" by simp
    have a: "\<forall>s\<in>set sets'. s \<in> set sets \<or> built_for network s"
    proof
      fix s assume "s \<in> set sets'"
      hence "s \<in> set (sets @ [set1]) \<or> built_for network s"
        using ih[THEN conjunct1] by blast
      thus "s \<in> set sets \<or> built_for network s" using built by auto
    qed
    have b: "\<forall>k vs node. (k, vs) \<in> set (kv # xs) \<and> map_of (NodesByName network) k = Some node
             \<longrightarrow> (\<exists>s\<in>set sets'. map_of s k = Some vs)"
    proof (intro allI impI)
      fix k vs nd
      assume h: "(k, vs) \<in> set (kv # xs) \<and> map_of (NodesByName network) k = Some nd"
      show "\<exists>s\<in>set sets'. map_of s k = Some vs"
      proof (cases "(k, vs) = (key, vals)")
        case True
        then show ?thesis using key in' by auto
      next
        case False
        hence "(k, vs) \<in> set xs" using h by (auto simp: kv)
        moreover have "\<forall>key vals node. (key, vals) \<in> set xs
             \<and> map_of (NodesByName network) key = Some node
             \<longrightarrow> (\<exists>s\<in>set sets'. map_of s key = Some vals)"
          using ih[THEN conjunct2, THEN conjunct1] .
        ultimately show ?thesis using h by blast
      qed
    qed
    have c: "set sets \<subseteq> set sets'" using sub by simp
    from a b c show ?thesis by (intro conjI)
  qed
qed

lemma GetConstraintClosure_known_key:
  assumes "GetConstraintClosure network e t possibleValues = (Inr R, t')"
    and "map_of possibleValues k = Some allowed"
    and "map_of R k = Some induced"
    and "k \<in> dom (map_of (NodesByName network))"
  shows "set induced \<subseteq> set allowed"
proof -
  let ?xs = "permute (arrangement e t) (map_entries possibleValues)"
  obtain sets found t1 where cs: "closure_sets network e (Suc t) ?xs [] False = (Inr (sets, found), t1)"
    and rest: "(if \<not> found then (Inr [], t1) else closure_merge e t1 sets []) = (Inr R, t')"
    using assms(1) unfolding GetConstraintClosure_def
    by (auto split: prod.splits sum.splits)
  have found using rest assms(3) by (auto split: if_splits)
  hence cm: "closure_merge e t1 sets [] = (Inr R, t')" using rest by simp
  have "(k, allowed) \<in> set ?xs" using assms(2) by (simp add: map_of_entries_iff)
  moreover obtain node where "map_of (NodesByName network) k = Some node"
    using assms(4) by auto
  ultimately obtain s where "s \<in> set sets" "map_of s k = Some allowed"
    using closure_sets_sound[OF cs, THEN conjunct2, THEN conjunct1] by blast
  then obtain v where "map_of R k = Some v" "set v \<subseteq> set allowed"
    using closure_merge_sound[OF cm, THEN conjunct2, THEN conjunct1] by blast
  thus ?thesis using assms(3) by simp
qed

lemma GetConstraintClosure_keys:
  assumes "GetConstraintClosure network e t possibleValues = (Inr R, t')"
    and "map_of R k = Some induced"
  shows "\<exists>key node. map_of (NodesByName network) key = Some node
           \<and> (k = key \<or> k \<in> set (ParentNames (Definition node)))"
proof -
  let ?xs = "permute (arrangement e t) (map_entries possibleValues)"
  obtain sets found t1 where cs: "closure_sets network e (Suc t) ?xs [] False = (Inr (sets, found), t1)"
    and rest: "(if \<not> found then (Inr [], t1) else closure_merge e t1 sets []) = (Inr R, t')"
    using assms(1) unfolding GetConstraintClosure_def
    by (auto split: prod.splits sum.splits)
  have found using rest assms(2) by (auto split: if_splits)
  hence cm: "closure_merge e t1 sets [] = (Inr R, t')" using rest by simp
  have "k \<in> dom (map_of R)" using assms(2) by auto
  moreover have "dom (map_of R) \<subseteq> (\<Union>s\<in>set sets. dom (map_of s))"
    using closure_merge_sound[OF cm, THEN conjunct2, THEN conjunct2] by simp
  ultimately obtain s where s: "s \<in> set sets" "k \<in> dom (map_of s)"
    by blast
  hence "built_for network s" using closure_sets_sound[OF cs, THEN conjunct1] by auto
  thus ?thesis using s(2) unfolding built_for_def by blast
qed

text \<open>
  Claim C3, as stated for every network, fails. A key of the constraint map that names no
  node is skipped when the per-key sets are built, so its own list is never recorded; but
  when the same key is a parent name of a constrained node, the paths of that node's table
  bind it in the node's set. In \<open>orphan_net\<close>, with \<open>B\<close> restricted to \<open>zz\<close> and \<open>C\<close> to
  \<open>c2\<close>, the closure succeeds and binds \<open>B\<close> to \<open>b2\<close>, which is not in the list given for
  \<open>B\<close>.
\<close>

theorem GetConstraintClosure_leaves_constraint:
  "GetConstraintClosure orphan_net fixed_entropy 0 [(''B'', [''zz'']), (''C'', [''c2''])]
     = (Inr [(''B'', [''b2'']), (''C'', [''c2''])], 9)
   \<and> map_of [(''B'', [''zz'']), (''C'', [''c2''])] ''B'' = Some [''zz'']
   \<and> map_of [(''B'', [''b2'']), (''C'', [''c2''])] ''B'' = Some [''b2'']
   \<and> \<not> set [''b2''] \<subseteq> set [''zz'']"
  by (simp add: GetConstraintClosure_def orphan_net_def chain_C_def
      fixed_entropy_def map_entries_def insert_at_def filterByLastLevelKeys_def Let_def
      record_path_def union_append_def ArrayIntersection_def get_slice_def)

text \<open>
  Claim C3, amended: in a network in which every parent name of a node is itself the name
  of a node, when \<open>GetConstraintClosure\<close> returns a result \<open>R\<close> without the over-constrained
  error, every key bound both in the constraint map \<open>P\<close> and in \<open>R\<close> has in \<open>R\<close> a list whose
  elements all belong to its list in \<open>P\<close>. The statement holds for every iteration order.
\<close>

theorem GetConstraintClosure_subset:
  assumes "GetConstraintClosure network e t possibleValues = (Inr R, t')"
    and "\<forall>node\<in>snd ` set (NodesByName network).
           set (ParentNames (Definition node)) \<subseteq> fst ` set (NodesByName network)"
    and "map_of possibleValues k = Some allowed"
    and "map_of R k = Some induced"
  shows "set induced \<subseteq> set allowed"
proof -
  obtain key node where kn: "map_of (NodesByName network) key = Some node"
      "k = key \<or> k \<in> set (ParentNames (Definition node))"
    using GetConstraintClosure_keys[OF assms(1) assms(4)] by blast
  have "node \<in> snd ` set (NodesByName network)"
    using kn(1) by (force dest: map_of_SomeD)
  hence "set (ParentNames (Definition node)) \<subseteq> fst ` set (NodesByName network)"
    using assms(2) by blast
  moreover have "key \<in> fst ` set (NodesByName network)"
    using kn(1) by (force dest: map_of_SomeD)
  ultimately have "k \<in> dom (map_of (NodesByName network))"
    using kn(2) by (auto simp: dom_map_of_conv_image_fst)
  thus ?thesis
    by (rule GetConstraintClosure_known_key[OF assms(1) assms(3) assms(4)])
qed


lemmas closure_simps = GetConstraintClosure_def chain_net_def chain_A_def chain_B_def chain_C_def
      fixed_entropy_def map_entries_def insert_at_def filterByLastLevelKeys_def Let_def
      record_path_def union_append_def ArrayIntersection_def get_slice_def

theorem GetConstraintClosure_subset_witness:
  "GetConstraintClosure chain_net fixed_entropy 0 [(''C'', [''c2'']), (''B'', [''b1'', ''b2''])]
     = (Inr [(''B'', [''b2'']), (''C'', [''c2'']), (''A'', [''a1'', ''a2''])], 17)
   \<and> set [''b2''] \<subseteq> set [''b1'', ''b2'']"
  using GetConstraintClosure_subset
    [of chain_net fixed_entropy 0 "[(''C'', [''c2'']), (''B'', [''b1'', ''b2''])]"
        "[(''B'', [''b2'']), (''C'', [''c2'']), (''A'', [''a1'', ''a2''])]" 17
        "''B''" "[''b1'', ''b2'']" "[''b2'']"]
  by (simp add: closure_simps)

section \<open>Properties of the Accept-Language field\<close>

lemma to_lower_upper_char: "to_lower_char (to_upper_char c) = to_lower_char c"
  by (simp add: to_lower_char_def to_upper_char_def)

lemma to_lower_lower_char: "to_lower_char (to_lower_char c) = to_lower_char c"
  by (simp add: to_lower_char_def to_upper_char_def)

lemma to_upper_char_star: "to_upper_char c = CHR ''*'' \<longleftrightarrow> c = CHR ''*''"
  by (simp add: to_upper_char_def)

lemma add_high_level_keeps: "hl \<noteq> [] \<Longrightarrow> add_high_level ls hl \<noteq> []"
  by (induction ls arbitrary: hl) auto

lemma add_high_level_ne: "ls \<noteq> [] \<Longrightarrow> add_high_level ls hl \<noteq> []"
proof (cases ls)
  case (Cons l rest)
  let ?hl' = "(if l \<notin> set hl then
          (if list_ex (\<lambda>h. Contains l h) hl then hl else hl @ [l]) else hl)"
  have "?hl' \<noteq> []" by (cases hl) auto
  hence "add_high_level rest ?hl' \<noteq> []" by (rule add_high_level_keeps)
  thus ?thesis by (simp add: Cons)
qed simp

lemma set_add_high_level: "set (add_high_level ls hl) \<subseteq> set ls \<union> set hl"
proof (induction ls arbitrary: hl)
  case Nil
  show ?case by simp
next
  case (Cons l ls)
  let ?hl' = "(if l \<notin> set hl then
          (if list_ex (\<lambda>h. Contains l h) hl then hl else hl @ [l]) else hl)"
  have "set (add_high_level ls ?hl') \<subseteq> set ls \<union> set ?hl'" by (rule Cons.IH)
  moreover have "set ?hl' \<subseteq> insert l (set hl)" by auto
  ultimately have "set (add_high_level ls ?hl') \<subseteq> set (l # ls) \<union> set hl" by auto
  thus ?case by simp
qed

lemma permute_ne: "xs \<noteq> [] \<Longrightarrow> permute s xs \<noteq> []"
  by (metis mset_permute mset_zero_iff)

lemma localesInAddingOrder_ne:
  assumes "localesFromOptions \<noteq> []"
  shows "fst (localesInAddingOrder e t localesFromOptions) \<noteq> []"
proof -
  let ?hl = "permute (arrangement e t)
     (add_high_level localesFromOptions (filter (\<lambda>locale. \<not> Contains locale ''-'') localesFromOptions))"
  have "?hl \<noteq> []" using assms by (intro permute_ne add_high_level_ne)
  then obtain h rest where "?hl = h # rest" by (cases ?hl) auto
  thus ?thesis
    by (simp add: localesInAddingOrder_def ShuffleArray_def Let_def)
qed

lemma set_localesInAddingOrder:
  "set (fst (localesInAddingOrder e t localesFromOptions)) \<subseteq> set localesFromOptions"
proof -
  have "set (add_high_level localesFromOptions
          (filter (\<lambda>locale. \<not> Contains locale ''-'') localesFromOptions)) \<subseteq> set localesFromOptions"
    using set_add_high_level[of localesFromOptions] by fastforce
  thus ?thesis
    by (auto simp: localesInAddingOrder_def ShuffleArray_def Let_def set_permute)
qed

lemma append_qualities_closed:
  "x \<le> length ls \<Longrightarrow>
   append_qualities ls x acc =
     acc @ concat (map (\<lambda>i. '','' @ ls ! i @ '';q='' @ FormatFloat_f1 (10 - int i)) [x..<length ls])"
proof (induction ls x acc rule: append_qualities.induct)
  case (1 ls x acc)
  show ?case
  proof (cases "x < length ls")
    case True
    hence "[x..<length ls] = x # [x + 1..<length ls]" by (simp add: upt_conv_Cons)
    thus ?thesis
      using "1.IH"[OF True] True by (subst append_qualities.simps) simp
  next
    case False
    thus ?thesis using "1.prems" by (subst append_qualities.simps) simp
  qed
qed

lemma FormatFloat_f1_first_nine:
  "1 \<le> i \<Longrightarrow> i \<le> 9 \<Longrightarrow> FormatFloat_f1 (10 - int i) = ''0.'' @ [digit_char (10 - i)]"
proof -
  assume "1 \<le> i" "i \<le> 9"
  hence "nat \<bar>10 - int i\<bar> = 10 - i" "10 - i < 10" "\<not> 10 - int i < 0" by auto
  thus ?thesis
    by (simp add: FormatFloat_f1_def decimal.simps digit_char_def)
qed

text \<open>
  Claim C7. For every non-empty locale list and every outcome of the two shuffles, the
  Accept-Language value is the first locale of \<open>localesInAddingOrder\<close> (a non-empty list of
  locales from the options) with no \<open>;q=\<close> suffix, followed for every position \<open>i \<ge> 1\<close> by
  a comma, the locale at position \<open>i\<close>, \<open>;q=\<close> and the quality \<open>1.0 - 0.1 i\<close> printed with
  one decimal: \<open>0.9\<close>, \<open>0.8\<close>, ..., \<open>0.1\<close> for the positions 1 to 9, \<open>0.0\<close> at position
  10 and a negative number beyond, each one tenth below the one before.
\<close>

theorem getAcceptLanguageField_qualities:
  assumes "localesFromOptions \<noteq> []"
  shows "fst (localesInAddingOrder e t localesFromOptions) \<noteq> []
       \<and> set (fst (localesInAddingOrder e t localesFromOptions)) \<subseteq> set localesFromOptions
       \<and> fst (getAcceptLanguageField e t localesFromOptions) =
           hd (fst (localesInAddingOrder e t localesFromOptions))
           @ concat (map (\<lambda>i. '','' @ fst (localesInAddingOrder e t localesFromOptions) ! i
                               @ '';q='' @ FormatFloat_f1 (10 - int i))
                       [1..<length (fst (localesInAddingOrder e t localesFromOptions))])
       \<and> (\<forall>i. 1 \<le> i \<and> i \<le> 9 \<longrightarrow>
             FormatFloat_f1 (10 - int i) = ''0.'' @ [digit_char (10 - i)])
       \<and> (\<forall>i. FormatFloat_f1 (10 - int 10) = ''0.0''
             \<and> (10 < i \<longrightarrow> FormatFloat_f1 (10 - int i)
                   = ''-'' @ decimal ((i - 10) div 10) @ ''.'' @ [digit_char ((i - 10) mod 10)]))"
proof -
  obtain ls t' where run: "localesInAddingOrder e t localesFromOptions = (ls, t')"
    by (cases "localesInAddingOrder e t localesFromOptions")
  have ne: "ls \<noteq> []" using localesInAddingOrder_ne[OF assms, of e t] run by simp
  hence len: "1 \<le> length ls" by (cases ls) auto
  have "fst (getAcceptLanguageField e t localesFromOptions) = append_qualities ls 1 (ls ! 0)"
    using ne by (simp add: getAcceptLanguageField_def run)
  also have "\<dots> = ls ! 0 @ concat (map (\<lambda>i. '','' @ ls ! i @ '';q='' @ FormatFloat_f1 (10 - int i))
                       [1..<length ls])"
    by (rule append_qualities_closed[OF len])
  also have "ls ! 0 = hd ls" using ne by (simp add: hd_conv_nth)
  finally have main: "fst (getAcceptLanguageField e t localesFromOptions) =
      hd ls @ concat (map (\<lambda>i. '','' @ ls ! i @ '';q='' @ FormatFloat_f1 (10 - int i))
                       [1..<length ls])" .
  have neg: "\<And>i. 10 < i \<Longrightarrow> FormatFloat_f1 (10 - int i)
                   = ''-'' @ decimal ((i - 10) div 10) @ ''.'' @ [digit_char ((i - 10) mod 10)]"
  proof -
    fix i :: nat assume "10 < i"
    hence "nat \<bar>10 - int i\<bar> = i - 10" "10 - int i < 0" by auto
    thus "FormatFloat_f1 (10 - int i)
                   = ''-'' @ decimal ((i - 10) div 10) @ ''.'' @ [digit_char ((i - 10) mod 10)]"
      by (simp add: FormatFloat_f1_def)
  qed
  have zero: "FormatFloat_f1 (10 - int 10) = ''0.0''"
    by (simp add: FormatFloat_f1_def decimal.simps digit_char_def)
  show ?thesis
    using ne set_localesInAddingOrder[of e t localesFromOptions] main FormatFloat_f1_first_nine
      neg zero
    by (simp add: run)
qed

theorem getAcceptLanguageField_qualities_witness:
  "fst (getAcceptLanguageField fixed_entropy 0 [''en-US'', ''en'', ''de''])
     = ''en-US,en;q=0.9,de;q=0.8''
   \<and> fst (localesInAddingOrder fixed_entropy 0 [''en-US'', ''en'', ''de''])
     = [''en-US'', ''en'', ''de'']"
  using getAcceptLanguageField_qualities[of "[''en-US'', ''en'', ''de'']" fixed_entropy 0]
  by (simp add: getAcceptLanguageField_def localesInAddingOrder_def ShuffleArray_def fixed_entropy_def
      insert_at_def append_qualities.simps FormatFloat_f1_def decimal.simps digit_char_def Let_def)

end
